theory Spec2Isabelle
  imports Complex_Main "HOL-Library.Sublist"
begin

section \<open>Python strings\<close>

text \<open>
  A Python \<open>str\<close> is a sequence of code points.  It is modelled as a \<open>string\<close>, one
  \<open>char\<close> per code point, which covers the code points 0 to 255 (Latin-1); \<open>length\<close>
  is Python's \<open>len\<close>.  The character classes below are the ones CPython uses on this
  range: \<open>str.isspace\<close> (shared by \<open>str.strip()\<close>, \<open>str.split()\<close>, \<open>int()\<close> and the
  pattern \<open>\<^verbatim>\<open>\s\<close>\<close>), the decimal digits (\<open>\<^verbatim>\<open>\d\<close>\<close>), and \<open>str.lower\<close>.
\<close>

definition is_space :: "char \<Rightarrow> bool" where
  "is_space c =
     (let n = (of_char c :: nat)
      in (9 \<le> n \<and> n \<le> 13) \<or> (28 \<le> n \<and> n \<le> 32) \<or> n = 133 \<or> n = 160)"

definition is_digit :: "char \<Rightarrow> bool" where
  "is_digit c = (let n = (of_char c :: nat) in 48 \<le> n \<and> n \<le> 57)"

definition lower_char :: "char \<Rightarrow> char" where
  "lower_char c =
     (let n = (of_char c :: nat)
      in if (65 \<le> n \<and> n \<le> 90) \<or> (192 \<le> n \<and> n \<le> 222 \<and> n \<noteq> 215)
         then char_of (n + 32) else c)"

definition lower :: "string \<Rightarrow> string" where
  "lower s = map lower_char s"

text \<open>\<open>sub in s\<close> on strings: \<open>sub\<close> occurs in \<open>s\<close> as a contiguous substring.\<close>

fun py_in :: "string \<Rightarrow> string \<Rightarrow> bool" where
  "py_in sub [] = (sub = [])"
| "py_in sub (c # cs) = (prefix sub (c # cs) \<or> py_in sub cs)"

text \<open>\<open>s.strip()\<close> and \<open>s.strip(chars)\<close>.\<close>

definition strip :: "string \<Rightarrow> string" where
  "strip s = rev (dropWhile is_space (rev (dropWhile is_space s)))"


text \<open>\<open>s.split()\<close>: the maximal runs of non-whitespace characters, in order.\<close>

function split_ws :: "string \<Rightarrow> string list" where
  "split_ws s =
     (let r = dropWhile is_space s
      in if r = [] then []
         else takeWhile (\<lambda>c. \<not> is_space c) r # split_ws (dropWhile (\<lambda>c. \<not> is_space c) r))"
  by pat_completeness auto
termination
proof (relation "measure length")
  show "wf (measure length)" by simp
next
  fix s r :: string
  assume r: "r = dropWhile is_space s" and ne: "r \<noteq> []"
  from ne obtain c cs where cons: "r = c # cs" by (cases r) auto
  from r ne have "\<not> is_space (hd r)" by (metis hd_dropWhile)
  with cons have "\<not> is_space c" by simp
  with cons have "length (dropWhile (\<lambda>c. \<not> is_space c) r) \<le> length cs"
    by (simp add: length_dropWhile_le)
  also have "length cs < length r" using cons by simp
  also have "length r \<le> length s" using r by (simp add: length_dropWhile_le)
  finally show "(dropWhile (\<lambda>c. \<not> is_space c) r, s) \<in> measure length" by simp
qed

declare split_ws.simps [simp del]

text \<open>\<open>s.split(sep)\<close> for a one-character separator: always at least one part.\<close>

function split_on :: "char \<Rightarrow> string \<Rightarrow> string list" where
  "split_on sep s =
     (case dropWhile (\<lambda>c. c \<noteq> sep) s of
        [] \<Rightarrow> [takeWhile (\<lambda>c. c \<noteq> sep) s]
      | _ # r \<Rightarrow> takeWhile (\<lambda>c. c \<noteq> sep) s # split_on sep r)"
  by pat_completeness auto
termination
proof (relation "measure (\<lambda>(sep, s). length s)")
  show "wf (measure (\<lambda>(sep, s). length s))" by simp
next
  fix sep :: char and s r :: string and x :: char
  assume "dropWhile (\<lambda>c. c \<noteq> sep) s = x # r"
  then have "length (x # r) \<le> length s" by (metis length_dropWhile_le)
  then show "((sep, r), (sep, s)) \<in> measure (\<lambda>(sep, s). length s)" by simp
qed

declare split_on.simps [simp del]

text \<open>\<open>sep.join(parts)\<close>.\<close>

fun join :: "string \<Rightarrow> string list \<Rightarrow> string" where
  "join sep [] = []"
| "join sep [x] = x"
| "join sep (x # y # ys) = x @ sep @ join sep (y # ys)"

text \<open>\<open>str(n)\<close> for an \<open>int\<close>: decimal digits, with a leading minus sign below zero.\<close>

fun digits_of_nat :: "nat \<Rightarrow> string" where
  "digits_of_nat n =
     (if n < 10 then [char_of (48 + n)]
      else digits_of_nat (n div 10) @ [char_of (48 + n mod 10)])"

declare digits_of_nat.simps [simp del]

definition str_of_int :: "int \<Rightarrow> string" where
  "str_of_int i = (if i < 0 then CHR ''-'' # digits_of_nat (nat (- i)) else digits_of_nat (nat i))"

text \<open>
  Exceptions are values.  \<open>int(s)\<close> on a string: surrounding whitespace is ignored, one
  sign is allowed, and the digits may be grouped by single underscores; anything else
  raises ValueError.  The bound that recent CPython versions put on the number of digits
  in conversions between \<open>int\<close> and \<open>str\<close> (4300 by default) is left out.
\<close>

datatype py_error = ValueError | IndexError | KeyError | TypeError




text \<open>\<open>xs[i]\<close> on a list, with Python's negative indices and its IndexError.\<close>

definition py_get :: "'a list \<Rightarrow> int \<Rightarrow> py_error + 'a" where
  "py_get xs i =
     (if 0 \<le> i \<and> i < int (length xs) then Inr (xs ! nat i)
      else if i < 0 \<and> - int (length xs) \<le> i then Inr (xs ! nat (int (length xs) + i))
      else Inl IndexError)"

text \<open>The slice \<open>xs[:k]\<close>.\<close>

definition py_slice_to :: "int \<Rightarrow> 'a list \<Rightarrow> 'a list" where
  "py_slice_to k xs = (if 0 \<le> k then take (nat k) xs else take (length xs - nat (- k)) xs)"

section \<open>Verses, passages and citations (rag/utils.py)\<close>

text \<open>
  Passages, stored verses and search results are dictionaries in the source.  A passage
  is what the answerer reads (chapter, verse, text); a stored verse adds the identifier
  and the optional Sanskrit text; a search result adds score and rank.  Scores are
  floating-point numbers in the source and real numbers here.
\<close>

record passage =
  "chapter" :: int
  verse :: int
  "text" :: string

record verse_doc = passage +
  doc_id :: string
  sanskrit :: "string option"

record search_result = verse_doc +
  score :: real
  rank :: int

definition build_citation :: "int \<Rightarrow> int \<Rightarrow> string" where
  "build_citation c v = ''['' @ str_of_int c @ ''.'' @ str_of_int v @ '']''"

text \<open>
  One attempt of the pattern \<open>\<^verbatim>\<open>\[(\d+)\.(\d+)\]\<close>\<close> at the start of a string: the two
  groups and the text after the match.  Both \<open>\<^verbatim>\<open>\d+\<close>\<close> are greedy, and giving a digit
  back never helps, since the next pattern character is not a digit.
\<close>

definition match_citation :: "string \<Rightarrow> (string \<times> string \<times> string) option" where
  "match_citation s =
     (case s of
        [] \<Rightarrow> None
      | c # r \<Rightarrow>
          if c \<noteq> CHR ''['' then None
          else let d1 = takeWhile is_digit r in
            if d1 = [] then None
            else (case dropWhile is_digit r of
                [] \<Rightarrow> None
              | p # r2 \<Rightarrow>
                  if p \<noteq> CHR ''.'' then None
                  else let d2 = takeWhile is_digit r2 in
                    if d2 = [] then None
                    else (case dropWhile is_digit r2 of
                        [] \<Rightarrow> None
                      | q # r3 \<Rightarrow> if q \<noteq> CHR '']'' then None else Some (d1, d2, r3))))"

text \<open>\<open>re.findall\<close> with that pattern: leftmost matches, left to right, not overlapping.\<close>

function findall_citations :: "string \<Rightarrow> (string \<times> string) list" where
  "findall_citations [] = []"
| "findall_citations (c # cs) =
     (case match_citation (c # cs) of
        None \<Rightarrow> findall_citations cs
      | Some (d1, d2, r) \<Rightarrow> (d1, d2) # findall_citations r)"
  by pat_completeness auto
termination
proof (relation "measure length")
  show "wf (measure length)" by simp
next
  fix c :: char and cs d1 d2 r :: string
    and x2 :: "string \<times> string \<times> string" and y :: "string \<times> string"
  assume "match_citation (c # cs) = Some x2" "(d1, y) = x2"  "(d2, r) = y"
  then have m: "match_citation (c # cs) = Some (d1, d2, r)" by simp
  from m obtain p r2 where r2: "dropWhile is_digit cs = p # r2"
    unfolding match_citation_def Let_def
    by (simp split: if_splits list.splits)
  from m r2 obtain q where r3: "dropWhile is_digit r2 = q # r"
    unfolding match_citation_def Let_def
    by (simp split: if_splits list.splits)
  have "length (q # r) \<le> length r2" using r3 by (metis length_dropWhile_le)
  moreover have "length (p # r2) \<le> length cs" using r2 by (metis length_dropWhile_le)
  ultimately show "(r, c # cs) \<in> measure length" by simp
next
  fix c :: char and cs :: string
  show "(cs, c # cs) \<in> measure length" by simp
qed

definition extract_citations_from_text :: "string \<Rightarrow> string list" where
  "extract_citations_from_text s =
     map (\<lambda>(a, b). ''['' @ a @ ''.'' @ b @ '']'') (findall_citations s)"

definition format_context_block :: "'a passage_scheme list \<Rightarrow> string" where
  "format_context_block passages =
     join ''\<newline>\<newline>''
       (map (\<lambda>p. build_citation (chapter p) (verse p) @ '' '' @ text p) passages)"

text \<open>
  \<open>clean_text\<close>: \<open>re.sub(r'\s+', ' ', text.strip())\<close>, then
  \<open>re.sub(r'[^\x20-\x7E\n]', '', text)\<close>.
\<close>

function collapse_ws :: "string \<Rightarrow> string" where
  "collapse_ws [] = []"
| "collapse_ws (c # cs) =
     (if is_space c then CHR '' '' # collapse_ws (dropWhile is_space cs)
      else c # collapse_ws cs)"
  by pat_completeness auto
termination
  by (relation "measure length") (auto simp: length_dropWhile_le less_Suc_eq_le)

definition is_kept :: "char \<Rightarrow> bool" where
  "is_kept c = (let n = (of_char c :: nat) in (32 \<le> n \<and> n \<le> 126) \<or> n = 10)"

definition clean_text :: "string \<Rightarrow> string" where
  "clean_text s = (if s = [] then [] else filter is_kept (collapse_ws (strip s)))"

section \<open>Safety filter (rag/utils.py)\<close>

definition medical_keywords :: "string list" where
  "medical_keywords =
     [''medical'', ''medicine'', ''doctor'', ''treatment'', ''diagnosis'', ''symptoms'',
      ''prescription'', ''drug'', ''therapy'', ''cure'', ''illness'', ''disease'']"

definition legal_keywords :: "string list" where
  "legal_keywords =
     [''legal'', ''lawyer'', ''court'', ''lawsuit'', ''legal advice'', ''attorney'',
      ''litigation'', ''contract'', ''legal opinion'', ''jurisdiction'']"

text \<open>The \<open>for keyword in ...\<close> loop of \<open>safety_check\<close>: the first hit returns False.\<close>

fun keyword_scan :: "string list \<Rightarrow> string \<Rightarrow> bool" where
  "keyword_scan [] query_lower = True"
| "keyword_scan (keyword # rest) query_lower =
     (if py_in keyword query_lower then False else keyword_scan rest query_lower)"

definition safety_check :: "string \<Rightarrow> bool" where
  "safety_check query =
     (let query_lower = lower query
      in keyword_scan (medical_keywords @ legal_keywords) query_lower)"

section \<open>Answerer (rag/answer.py)\<close>

text \<open>\<open>re.split(r'[.!?]+', s)\<close>: the pieces between maximal runs of sentence punctuation.\<close>

definition is_sentence_end :: "char \<Rightarrow> bool" where
  "is_sentence_end c = (c = CHR ''.'' \<or> c = CHR ''!'' \<or> c = CHR ''?'')"

function re_split_sentences :: "string \<Rightarrow> string list" where
  "re_split_sentences s =
     (let piece = takeWhile (\<lambda>c. \<not> is_sentence_end c) s;
          r = dropWhile (\<lambda>c. \<not> is_sentence_end c) s
      in if r = [] then [piece]
         else piece # re_split_sentences (dropWhile is_sentence_end r))"
  by pat_completeness auto
termination
proof (relation "measure length")
  show "wf (measure length)" by simp
next
  fix s piece r :: string
  assume r: "r = dropWhile (\<lambda>c. \<not> is_sentence_end c) s" and ne: "r \<noteq> []"
  from ne obtain c cs where cons: "r = c # cs" by (cases r) auto
  from r ne have "\<not> \<not> is_sentence_end (hd r)" by (metis hd_dropWhile)
  with cons have "length (dropWhile is_sentence_end r) \<le> length cs"
    by (simp add: length_dropWhile_le)
  also have "length cs < length r" using cons by simp
  also have "length r \<le> length s" using r by (simp add: length_dropWhile_le)
  finally show "(dropWhile is_sentence_end r, s) \<in> measure length" by simp
qed

declare re_split_sentences.simps [simp del]

definition not_found_message :: string where
  "not_found_message =
     ''I couldn't find relevant verses in the Bhagavad Gita to answer your question.''"

text \<open>
  The body of the \<open>for sentence in sentences\<close> loop of \<open>extractive_answer\<close>, on the pair
  (best_sentence, best_score), and the loop itself.
\<close>

definition sentence_step :: "string set \<Rightarrow> string \<times> nat \<Rightarrow> string \<Rightarrow> string \<times> nat" where
  "sentence_step query_words best sentence =
     (let sentence = strip sentence
      in if length sentence < 20 then best
         else let sentence_words = set (split_ws (lower sentence));
                  score = card (query_words \<inter> sentence_words)
              in if score > snd best then (sentence, score) else best)"

fun sentence_loop :: "string set \<Rightarrow> string list \<Rightarrow> string \<times> nat \<Rightarrow> string \<times> nat" where
  "sentence_loop query_words [] best = best"
| "sentence_loop query_words (sentence # rest) best =
     sentence_loop query_words rest (sentence_step query_words best sentence)"

definition extractive_answer :: "string \<Rightarrow> 'a passage_scheme list \<Rightarrow> py_error + string" where
  "extractive_answer query passages =
     (case passages of
        [] \<Rightarrow> Inr not_found_message
      | best_passage # _ \<Rightarrow>
          let best_citation = build_citation (chapter best_passage) (verse best_passage);
              verse_text = text best_passage;
              query_words = set (split_ws (lower query));
              sentences = re_split_sentences verse_text;
              best_sentence = fst (sentence_loop query_words sentences ([], 0))
          in case (if best_sentence = []
                   then (case py_get (split_on CHR ''.'' verse_text) 0 of
                           Inl e \<Rightarrow> Inl e
                         | Inr first \<Rightarrow> Inr (first @ ''.''))
                   else Inr best_sentence) of
               Inl e \<Rightarrow> Inl e
             | Inr best_sentence \<Rightarrow>
                 let answer = ''The Bhagavad Gita teaches: '' @ best_sentence @ '' '' @ best_citation
                 in if length passages > 1
                    then let context_verses = take 2 (drop 1 passages);
                             context_citations =
                               map (\<lambda>p. build_citation (chapter p) (verse p)) context_verses
                         in Inr (answer @ ''\<newline>\<newline>Related guidance: ''
                                   @ join '', '' context_citations)
                    else Inr answer)"

text \<open>
  The three generation backends call external services.  Each is a function of the query
  and the context block that yields a text or nothing (\<open>Optional[str]\<close>); every exception
  inside is caught by the backend itself and becomes \<open>None\<close>.
\<close>

record backends =
  generate_answer_gemini :: "string \<Rightarrow> string \<Rightarrow> string option"
  generate_answer_openai :: "string \<Rightarrow> string \<Rightarrow> string option"
  generate_answer_ollama :: "string \<Rightarrow> string \<Rightarrow> string option"

text \<open>\<open>if answer: return answer\<close>, else fall through to the code after the branch.\<close>

definition return_if_truthy :: "string option \<Rightarrow> (py_error + string) \<Rightarrow> py_error + string" where
  "return_if_truthy answer otherwise =
     (case answer of
        None \<Rightarrow> otherwise
      | Some a \<Rightarrow> if a \<noteq> [] then Inr a else otherwise)"

definition generate_answer ::
  "backends \<Rightarrow> string \<Rightarrow> 'a passage_scheme list \<Rightarrow> string \<Rightarrow> py_error + string" where
  "generate_answer self query passages model_type =
     (if passages = [] then Inr not_found_message
      else let context = format_context_block passages
           in if model_type = ''gemini''
              then return_if_truthy (generate_answer_gemini self query context)
                     (extractive_answer query passages)
              else if model_type = ''openai''
              then return_if_truthy (generate_answer_openai self query context)
                     (extractive_answer query passages)
              else if model_type = ''ollama''
              then return_if_truthy (generate_answer_ollama self query context)
                     (extractive_answer query passages)
              else extractive_answer query passages)"

text \<open>
  \<open>validate_answer\<close> builds Python sets and returns them as lists in no specified order;
  the report holds the sets.
\<close>

record validation =
  valid :: bool
  invalid_citations :: "string set"
  answer_citations :: "string set"
  passage_citations :: "string set"

definition validate_answer :: "string \<Rightarrow> 'a passage_scheme list \<Rightarrow> validation" where
  "validate_answer answer passages =
     (let answer_citations = set (extract_citations_from_text answer);
          passage_citations = set (map (\<lambda>p. build_citation (chapter p) (verse p)) passages);
          invalid_citations = answer_citations - passage_citations
      in \<lparr>valid = (card invalid_citations = 0),
          invalid_citations = invalid_citations,
          answer_citations = answer_citations,
          passage_citations = passage_citations\<rparr>)"

section \<open>The extractive algorithm as the specification words it\<close>

text \<open>
  Section 4.4 of the specification: take the top passage; split its text on
  sentence-ending punctuation; among the (trimmed) sentences of at least 20 characters,
  score each by the number of words its lower-case word set shares with the lower-case
  query word set; pick the highest-scoring sentence, the first one on a tie; when no
  sentence scores above zero, take the text up to the first period; compose the answer,
  and name passages 2 and 3 as related guidance when there are at least two passages.
\<close>

definition overlap :: "string \<Rightarrow> string \<Rightarrow> nat" where
  "overlap query sentence =
     card (set (split_ws (lower query)) \<inter> set (split_ws (lower sentence)))"

definition candidate_sentences :: "string \<Rightarrow> string list" where
  "candidate_sentences verse_text =
     filter (\<lambda>s. 20 \<le> length s) (map strip (re_split_sentences verse_text))"

definition best_scoring :: "string \<Rightarrow> string list \<Rightarrow> string option" where
  "best_scoring query cands =
     (if \<forall>s\<in>set cands. overlap query s = 0 then None
      else find (\<lambda>s. \<forall>t\<in>set cands. overlap query t \<le> overlap query s) cands)"

definition up_to_first_period :: "string \<Rightarrow> string" where
  "up_to_first_period verse_text = takeWhile (\<lambda>c. c \<noteq> CHR ''.'') verse_text @ ''.''"

definition related_guidance :: "'a passage_scheme list \<Rightarrow> string" where
  "related_guidance passages =
     (if 2 \<le> length passages
      then ''\<newline>\<newline>Related guidance: ''
             @ join '', '' (map (\<lambda>p. build_citation (chapter p) (verse p)) (take 2 (tl passages)))
      else [])"

definition extractive_answer_spec :: "string \<Rightarrow> 'a passage_scheme list \<Rightarrow> string" where
  "extractive_answer_spec query passages =
     (case passages of
        [] \<Rightarrow> not_found_message
      | top_passage # _ \<Rightarrow>
          ''The Bhagavad Gita teaches: ''
            @ (case best_scoring query (candidate_sentences (text top_passage)) of
                 Some sentence \<Rightarrow> sentence
               | None \<Rightarrow> up_to_first_period (text top_passage))
            @ '' '' @ build_citation (chapter top_passage) (verse top_passage)
            @ related_guidance passages)"

text \<open>
  For the invariant of the sentence loop: the first candidate of highest score, when that
  score is above the best score so far, and the pair it replaces otherwise.
\<close>

definition pick :: "('a \<Rightarrow> nat) \<Rightarrow> 'a list \<Rightarrow> 'a \<times> nat \<Rightarrow> 'a \<times> nat" where
  "pick f cs best =
     (if \<forall>s\<in>set cs. f s \<le> snd best then best
      else (the (find (\<lambda>s. \<forall>t\<in>set cs. f t \<le> f s) cs),
            f (the (find (\<lambda>s. \<forall>t\<in>set cs. f t \<le> f s) cs))))"

section \<open>Retriever (rag/retriever.py)\<close>

text \<open>
  The retriever holds the verse list and an index.  Encoding the query, normalising the
  vector and searching the index for all \<open>ntotal\<close> neighbours is one opaque function from
  the query to the list of (score, index) pairs that the loop of \<open>search\<close> zips together.
\<close>

record retriever =
  docs :: "verse_doc list"
  index_search :: "string \<Rightarrow> (real \<times> int) list"

definition result_of :: "verse_doc \<Rightarrow> real \<Rightarrow> int \<Rightarrow> search_result" where
  "result_of doc s r =
     \<lparr>chapter = chapter doc, verse = verse doc, text = text doc,
      doc_id = doc_id doc, sanskrit = sanskrit doc, score = s, rank = r\<rparr>"

text \<open>The \<open>for i, (score, idx) in enumerate(zip(...))\<close> loop of \<open>search\<close>, from position \<open>i\<close>.\<close>

fun search_loop :: "verse_doc list \<Rightarrow> nat \<Rightarrow> (real \<times> int) list \<Rightarrow> py_error + search_result list" where
  "search_loop ds i [] = Inr []"
| "search_loop ds i ((s, idx) # rest) =
     (if idx = - 1 then search_loop ds (i + 1) rest
      else if s < 0.1 then search_loop ds (i + 1) rest
      else (case py_get ds idx of
              Inl e \<Rightarrow> Inl e
            | Inr doc \<Rightarrow>
                (case search_loop ds (i + 1) rest of
                   Inl e \<Rightarrow> Inl e
                 | Inr results \<Rightarrow> Inr (result_of doc s (int i + 1) # results))))"

definition search :: "retriever \<Rightarrow> string \<Rightarrow> int option \<Rightarrow> py_error + search_result list" where
  "search self query k =
     (if strip query = [] then Inr []
      else (case search_loop (docs self) 0 (index_search self query) of
              Inl e \<Rightarrow> Inl e
            | Inr results \<Rightarrow>
                Inr (case k of None \<Rightarrow> results | Some n \<Rightarrow> py_slice_to n results)))"

record best_answer =
  best_verse :: search_result
  context_verses :: "search_result list"
  total_matches :: nat
  confidence :: real

definition search_best_answer :: "retriever \<Rightarrow> string \<Rightarrow> py_error + best_answer option" where
  "search_best_answer self query =
     (if strip query = [] then Inr None
      else (case search self query None of
              Inl e \<Rightarrow> Inl e
            | Inr all_results \<Rightarrow>
                (case all_results of
                   [] \<Rightarrow> Inr None
                 | best_match # _ \<Rightarrow>
                     Inr (Some \<lparr>best_verse = best_match,
                                context_verses =
                                  (if length all_results > 1 then take 4 (drop 1 all_results)
                                   else []),
                                total_matches = length all_results,
                                confidence = score best_match\<rparr>))))"

text \<open>The linear scan of \<open>get_verse_by_citation\<close>: the first stored verse that matches.\<close>

fun scan_docs :: "verse_doc list \<Rightarrow> int \<Rightarrow> int \<Rightarrow> search_result option" where
  "scan_docs [] c v = None"
| "scan_docs (doc # rest) c v =
     (if chapter doc = c \<and> verse doc = v then Some (result_of doc 1.0 1)
      else scan_docs rest c v)"

definition get_verse_by_citation :: "retriever \<Rightarrow> int \<Rightarrow> int \<Rightarrow> search_result option" where
  "get_verse_by_citation self c v = scan_docs (docs self) c v"



record citation_report =
  citation :: string
  exists :: bool
  verse_data :: "search_result option"




text \<open>
  The hits that the loop of \<open>search\<close> keeps: a usable index, and a score not below the
  floor (the source skips \<open>idx == -1\<close> and \<open>score < 0.1\<close>).
\<close>

definition floor_passing :: "(real \<times> int) list \<Rightarrow> (real \<times> int) list" where
  "floor_passing hits = filter (\<lambda>(s, idx). idx \<noteq> - 1 \<and> \<not> s < 0.1) hits"

section \<open>Example data\<close>

definition duty_passage :: passage where
  "duty_passage =
     \<lparr>chapter = 2, verse = 47, text =
        ''You have a right to perform your prescribed duty. But you are not entitled to the fruits of action!''\<rparr>"

definition work_passage :: passage where
  "work_passage = \<lparr>chapter = 3, verse = 8, text = ''Perform your work''\<rparr>"

text \<open>A deployment without credentials and without a local model server: no backend answers.\<close>

definition no_backends :: backends where
  "no_backends =
     \<lparr>generate_answer_gemini = (\<lambda>query context. None),
      generate_answer_openai = (\<lambda>query context. None),
      generate_answer_ollama = (\<lambda>query context. None)\<rparr>"

definition verse_2_47 :: verse_doc where
  "verse_2_47 =
     \<lparr>chapter = 2, verse = 47, text = ''Do your duty'', doc_id = ''02.47'', sanskrit = None\<rparr>"

definition verse_3_8 :: verse_doc where
  "verse_3_8 =
     \<lparr>chapter = 3, verse = 8, text = ''Do your duty'', doc_id = ''03.08'',
      sanskrit = Some ''niyatam''\<rparr>"

text \<open>
  Two stored verses with the same text have the same embedding, so a flat inner-product
  index gives both the same score.
\<close>

definition tie_retriever :: retriever where
  "tie_retriever =
     \<lparr>docs = [verse_2_47, verse_3_8], index_search = (\<lambda>query. [(0.5, 0), (0.5, 1)])\<rparr>"

definition small_retriever :: retriever where
  "small_retriever =
     \<lparr>docs = [verse_2_47, verse_3_8], index_search = (\<lambda>query. [(0.75, 1), (0.25, 0)])\<rparr>"

text \<open>An accented letter (code point 233, e with acute) between two words.\<close>

definition accented_text :: string where
  "accented_text = [CHR ''a'', CHR '' '', CHR 0xE9, CHR '' '', CHR ''b'']"

text \<open>The passage of the end-to-end example in section 8 of the specification.\<close>

definition duty_verse :: passage where
  "duty_verse =
     \<lparr>chapter = 2, verse = 47, text = ''...do your duty without attachment to results...''\<rparr>"

section \<open>Properties\<close>

lemma py_in_iff: "py_in sub s \<longleftrightarrow> (\<exists>pre suf. s = pre @ sub @ suf)"
proof (induction s)
  case Nil
  then show ?case by auto
next
  case (Cons c cs)
  show ?case
  proof
    assume "py_in sub (c # cs)"
    then consider "prefix sub (c # cs)" | "py_in sub cs" by auto
    then show "\<exists>pre suf. c # cs = pre @ sub @ suf"
    proof cases
      case 1
      then obtain suf where "c # cs = sub @ suf" by (auto simp: prefix_def)
      then have "c # cs = [] @ sub @ suf" by simp
      then show ?thesis by blast
    next
      case 2
      with Cons.IH obtain pre suf where "cs = pre @ sub @ suf" by blast
      then have "c # cs = (c # pre) @ sub @ suf" by simp
      then show ?thesis by blast
    qed
  next
    assume "\<exists>pre suf. c # cs = pre @ sub @ suf"
    then obtain pre suf where eq: "c # cs = pre @ sub @ suf" by blast
    show "py_in sub (c # cs)"
    proof (cases pre)
      case Nil
      with eq have "prefix sub (c # cs)" by (simp add: prefix_def)
      then show ?thesis by simp
    next
      case (Cons p ps)
      with eq have "cs = ps @ sub @ suf" by simp
      with Cons.IH have "py_in sub cs" by blast
      then show ?thesis by simp
    qed
  qed
qed

lemma keyword_scan_iff:
  "keyword_scan ks q \<longleftrightarrow> \<not> (\<exists>k\<in>set ks. py_in k q)"
  by (induction ks) auto

lemma map_eq_append3:
  "map f q = a @ b @ c \<longleftrightarrow>
     (\<exists>x y z. q = x @ y @ z \<and> map f x = a \<and> map f y = b \<and> map f z = c)"
proof
  assume "map f q = a @ b @ c"
  then have "\<exists>x r. q = x @ r \<and> map f x = a \<and> map f r = b @ c"
    by (metis map_eq_append_conv)
  then obtain x r where q: "q = x @ r" and x: "map f x = a" and r: "map f r = b @ c"
    by blast
  from r have "\<exists>y z. r = y @ z \<and> map f y = b \<and> map f z = c"
    by (metis map_eq_append_conv)
  with q x show "\<exists>x y z. q = x @ y @ z \<and> map f x = a \<and> map f y = b \<and> map f z = c"
    by blast
next
  assume "\<exists>x y z. q = x @ y @ z \<and> map f x = a \<and> map f y = b \<and> map f z = c"
  then show "map f q = a @ b @ c" by auto
qed

subsection \<open>The safety filter\<close>

text \<open>
  Claim C9.  \<open>safety_check\<close> returns False exactly when some keyword of the medical or the
  legal list occurs in the query as a case-insensitive substring, that is, when some
  contiguous part of the query lower-cases to the keyword; it returns True otherwise.
  The query "What medicine should I take?" is rejected and "How do I focus on my duty?"
  is accepted.
\<close>

theorem safety_check_keywords:
  "(safety_check query \<longleftrightarrow>
      \<not> (\<exists>keyword \<in> set (medical_keywords @ legal_keywords).
           \<exists>pre mid suf. query = pre @ mid @ suf \<and> lower mid = keyword))
   \<and> safety_check ''What medicine should I take?'' = False
   \<and> safety_check ''How do I focus on my duty?'' = True"
proof (intro conjI)
  show "safety_check query \<longleftrightarrow>
      \<not> (\<exists>keyword \<in> set (medical_keywords @ legal_keywords).
           \<exists>pre mid suf. query = pre @ mid @ suf \<and> lower mid = keyword)"
    unfolding safety_check_def Let_def keyword_scan_iff py_in_iff lower_def map_eq_append3
    by blast
next
  show "safety_check ''What medicine should I take?'' = False"
    by (simp add: safety_check_def lower_def lower_char_def medical_keywords_def
        legal_keywords_def)
next
  show "safety_check ''How do I focus on my duty?'' = True"
    by (simp add: safety_check_def lower_def lower_char_def medical_keywords_def
        legal_keywords_def)
qed

theorem safety_check_keywords_witness:
  "safety_check ''Ask a DOCTOR'' = False"
proof -
  have "''doctor'' \<in> set (medical_keywords @ legal_keywords)"
    by (simp add: medical_keywords_def)
  moreover have "lower ''DOCTOR'' = ''doctor''"
    by code_simp
  then have "''Ask a DOCTOR'' = ''Ask a '' @ ''DOCTOR'' @ [] \<and> lower ''DOCTOR'' = ''doctor''"
    by simp
  ultimately have "\<exists>keyword \<in> set (medical_keywords @ legal_keywords).
      \<exists>pre mid suf. ''Ask a DOCTOR'' = pre @ mid @ suf \<and> lower mid = keyword"
    by blast
  with safety_check_keywords [of "''Ask a DOCTOR''"] show ?thesis by blast
qed

subsection \<open>Answer generation: dispatch and fallback\<close>

lemma split_on_first: "\<exists>rest. split_on sep s = takeWhile (\<lambda>c. c \<noteq> sep) s # rest"
  by (subst split_on.simps) (simp split: list.splits)

lemma first_part: "py_get (split_on sep s) 0 = Inr (takeWhile (\<lambda>c. c \<noteq> sep) s)"
proof -
  obtain rest where "split_on sep s = takeWhile (\<lambda>c. c \<noteq> sep) s # rest"
    using split_on_first by blast
  then show ?thesis by (simp add: py_get_def)
qed

lemma extractive_answer_returns: "\<exists>answer. extractive_answer query passages = Inr answer"
  by (cases passages) (simp_all add: extractive_answer_def Let_def first_part)

text \<open>
  Claim C2.  When the backend of a generative mode yields no text (\<open>None\<close>, or an empty
  string, which \<open>if answer:\<close> treats alike), \<open>generate_answer\<close> in that mode returns exactly
  what it returns in mode "extractive" on the same query and passages, and that is the
  result of \<open>extractive_answer\<close>.  This holds for each of the three backends.
\<close>

theorem generate_answer_backend_unavailable:
  "(generate_answer_gemini self query (format_context_block passages) \<in> {None, Some []}
      \<longrightarrow> generate_answer self query passages ''gemini''
          = generate_answer self query passages ''extractive'')
   \<and> (generate_answer_openai self query (format_context_block passages) \<in> {None, Some []}
      \<longrightarrow> generate_answer self query passages ''openai''
          = generate_answer self query passages ''extractive'')
   \<and> (generate_answer_ollama self query (format_context_block passages) \<in> {None, Some []}
      \<longrightarrow> generate_answer self query passages ''ollama''
          = generate_answer self query passages ''extractive'')
   \<and> generate_answer self query passages ''extractive'' = extractive_answer query passages"
  by (cases passages)
    (auto simp: generate_answer_def Let_def return_if_truthy_def extractive_answer_def)

theorem generate_answer_backend_unavailable_witness:
  "generate_answer no_backends ''duty'' [duty_passage, work_passage] ''gemini''
     = generate_answer no_backends ''duty'' [duty_passage, work_passage] ''extractive''
   \<and> generate_answer no_backends ''duty'' [duty_passage, work_passage] ''openai''
     = generate_answer no_backends ''duty'' [duty_passage, work_passage] ''extractive''
   \<and> generate_answer no_backends ''duty'' [duty_passage, work_passage] ''ollama''
     = generate_answer no_backends ''duty'' [duty_passage, work_passage] ''extractive''"
proof -
  have g: "generate_answer_gemini no_backends ''duty''
             (format_context_block [duty_passage, work_passage]) \<in> {None, Some []}"
    by (simp add: no_backends_def)
  have p: "generate_answer_openai no_backends ''duty''
             (format_context_block [duty_passage, work_passage]) \<in> {None, Some []}"
    by (simp add: no_backends_def)
  have l: "generate_answer_ollama no_backends ''duty''
             (format_context_block [duty_passage, work_passage]) \<in> {None, Some []}"
    by (simp add: no_backends_def)
  from g p l
    generate_answer_backend_unavailable [of no_backends "''duty''" "[duty_passage, work_passage]"]
  show ?thesis by blast
qed

text \<open>
  Claim C10.  A \<open>model_type\<close> that is none of "gemini", "openai", "ollama" and
  "extractive" is not rejected: \<open>generate_answer\<close> returns the extractive answer, and it
  returns a string, not an error.
\<close>

theorem generate_answer_unknown_mode:
  assumes "model_type \<notin> {''gemini'', ''openai'', ''ollama'', ''extractive''}"
  shows "generate_answer self query passages model_type = extractive_answer query passages
         \<and> (\<exists>answer. generate_answer self query passages model_type = Inr answer)"
proof -
  have "generate_answer self query passages model_type = extractive_answer query passages"
    using assms
    by (cases passages) (simp_all add: generate_answer_def Let_def extractive_answer_def)
  with extractive_answer_returns [of query passages] show ?thesis by simp
qed

theorem generate_answer_unknown_mode_witness:
  "generate_answer no_backends ''duty'' [duty_passage, work_passage] ''llama''
     = extractive_answer ''duty'' [duty_passage, work_passage]"
proof -
  have "''llama'' \<notin> {''gemini'', ''openai'', ''ollama'', ''extractive''}" by simp
  from generate_answer_unknown_mode [OF this] show ?thesis by blast
qed

subsection \<open>Retriever: the search loop\<close>

lemma scan_docs_Some:
  "scan_docs ds c v = Some r \<Longrightarrow> \<exists>d\<in>set ds. chapter d = c \<and> verse d = v \<and> r = result_of d 1 1"
  by (induction ds) (auto split: if_splits)

lemma scan_docs_None:
  "scan_docs ds c v = None \<longleftrightarrow> (\<forall>d\<in>set ds. \<not> (chapter d = c \<and> verse d = v))"
  by (induction ds) auto

lemma search_loop_skip:
  "idx = - 1 \<or> s < 0.1 \<Longrightarrow> search_loop ds i ((s, idx) # hits) = search_loop ds (i + 1) hits"
  by (cases "idx = - 1") (simp_all only: search_loop.simps simp_thms if_True if_False)

lemma search_loop_keep:
  "\<not> (idx = - 1 \<or> s < 0.1) \<Longrightarrow>
   search_loop ds i ((s, idx) # hits) =
     (case py_get ds idx of
        Inl e \<Rightarrow> Inl e
      | Inr doc \<Rightarrow>
          (case search_loop ds (i + 1) hits of
             Inl e \<Rightarrow> Inl e
           | Inr results \<Rightarrow> Inr (result_of doc s (int i + 1) # results)))"
  by (simp only: search_loop.simps de_Morgan_disj simp_thms if_False)

lemma floor_passing_Nil: "floor_passing [] = []"
  by (simp add: floor_passing_def)

lemma floor_passing_skip:
  "idx = - 1 \<or> s < 0.1 \<Longrightarrow> floor_passing ((s, idx) # hits) = floor_passing hits"
  unfolding floor_passing_def by (simp only: filter.simps prod.case) auto

lemma floor_passing_keep:
  "\<not> (idx = - 1 \<or> s < 0.1) \<Longrightarrow> floor_passing ((s, idx) # hits) = (s, idx) # floor_passing hits"
  unfolding floor_passing_def by (simp only: filter.simps prod.case) auto

lemma search_loop_scores:
  "search_loop ds i hits = Inr rs \<Longrightarrow> map score rs = map fst (floor_passing hits)"
proof (induction hits arbitrary: i rs)
  case Nil
  then show ?case by (simp add: floor_passing_Nil)
next
  case (Cons h hits)
  obtain s idx where h: "h = (s, idx)" by (cases h)
  show ?case
  proof (cases "idx = - 1 \<or> s < 0.1")
    case True
    from Cons.prems have "search_loop ds (i + 1) hits = Inr rs"
      unfolding h search_loop_skip [OF True] .
    from Cons.IH [OF this] show ?thesis
      unfolding h floor_passing_skip [OF True] .
  next
    case False
    from Cons.prems obtain doc rest where
      rest: "search_loop ds (i + 1) hits = Inr rest" and rs: "rs = result_of doc s (int i + 1) # rest"
      unfolding h search_loop_keep [OF False] by (auto split: sum.splits)
    from Cons.IH [OF rest] rs show ?thesis
      unfolding h floor_passing_keep [OF False] by (simp add: result_of_def)
  qed
qed

lemma search_loop_total:
  "\<forall>(s, idx) \<in> set hits. - int (length ds) \<le> idx \<and> idx < int (length ds) \<Longrightarrow>
   \<exists>rs. search_loop ds i hits = Inr rs"
proof (induction hits arbitrary: i)
  case Nil
  then show ?case by simp
next
  case (Cons h hits)
  obtain s idx where h: "h = (s, idx)" by (cases h)
  from Cons.prems have "\<forall>(s, idx) \<in> set hits. - int (length ds) \<le> idx \<and> idx < int (length ds)"
    by simp
  from Cons.IH [OF this] obtain rs where rs: "search_loop ds (i + 1) hits = Inr rs" by blast
  from Cons.prems h have "- int (length ds) \<le> idx \<and> idx < int (length ds)" by simp
  then have "\<exists>doc. py_get ds idx = Inr doc" by (simp add: py_get_def)
  then obtain doc where doc: "py_get ds idx = Inr doc" by blast
  show ?case
  proof (cases "idx = - 1 \<or> s < 0.1")
    case True
    with rs show ?thesis unfolding h search_loop_skip [OF True] by simp
  next
    case False
    with rs doc show ?thesis unfolding h search_loop_keep [OF False] by simp
  qed
qed

lemma search_scores:
  assumes "search self query k = Inr rs"
  shows "strip query = [] \<longrightarrow> rs = []"
    and "strip query \<noteq> [] \<Longrightarrow> k = None \<Longrightarrow>
           map score rs = map fst (floor_passing (index_search self query))"
    and "\<exists>n. map score rs = take n (map fst (floor_passing (index_search self query)))"
proof -
  show "strip query = [] \<longrightarrow> rs = []" using assms by (auto simp: search_def)
next
  assume "strip query \<noteq> []" "k = None"
  with assms show "map score rs = map fst (floor_passing (index_search self query))"
    by (auto simp: search_def split: sum.splits dest: search_loop_scores)
next
  show "\<exists>n. map score rs = take n (map fst (floor_passing (index_search self query)))"
  proof (cases "strip query = []")
    case True
    with assms have "rs = []" by (auto simp: search_def)
    then have "map score rs = take 0 (map fst (floor_passing (index_search self query)))" by simp
    then show ?thesis by blast
  next
    case False
    with assms obtain all_rs where a: "search_loop (docs self) 0 (index_search self query) = Inr all_rs"
      and rs: "rs = (case k of None \<Rightarrow> all_rs | Some n \<Rightarrow> py_slice_to n all_rs)"
      by (auto simp: search_def split: sum.splits)
    have "\<exists>n. rs = take n all_rs"
    proof (cases k)
      case None
      with rs have "rs = take (length all_rs) all_rs" by simp
      then show ?thesis by blast
    next
      case (Some m)
      with rs show ?thesis by (auto simp: py_slice_to_def)
    qed
    then obtain n where "rs = take n all_rs" by blast
    with search_loop_scores [OF a]
    have "map score rs = take n (map fst (floor_passing (index_search self query)))"
      by (metis take_map)
    then show ?thesis by blast
  qed
qed

lemma strip_empty_iff: "strip s = [] \<longleftrightarrow> (\<forall>c\<in>set s. is_space c)"
proof
  define d where "d = dropWhile is_space s"
  assume "strip s = []"
  then have "dropWhile is_space (rev d) = []" by (simp add: strip_def d_def)
  then have all: "\<forall>c\<in>set d. is_space c" by (simp add: dropWhile_eq_Nil_conv)
  have "d = []"
  proof (rule ccontr)
    assume ne: "d \<noteq> []"
    then have "\<not> is_space (hd d)" unfolding d_def by (rule hd_dropWhile)
    moreover from ne have "hd d \<in> set d" by simp
    ultimately show False using all by blast
  qed
  then show "\<forall>c\<in>set s. is_space c" unfolding d_def by (simp add: dropWhile_eq_Nil_conv)
next
  assume "\<forall>c\<in>set s. is_space c"
  then have "dropWhile is_space s = []" by (simp add: dropWhile_eq_Nil_conv)
  then show "strip s = []" by (simp add: strip_def del: dropWhile_eq_Nil_conv)
qed

lemma floor_passing_scores: "(s, idx) \<in> set (floor_passing hits) \<Longrightarrow> 0.1 \<le> s"
  unfolding floor_passing_def by (simp only: set_filter mem_Collect_eq prod.case not_less)

lemma floor_passing_sorted:
  assumes "sorted_wrt (\<ge>) (map fst hits)"
  shows "sorted_wrt (\<ge>) (map fst (floor_passing hits))"
proof -
  from assms have "sorted_wrt (\<lambda>a b. fst a \<ge> fst b) hits" by (simp add: sorted_wrt_map)
  then have "sorted_wrt (\<lambda>a b. fst a \<ge> fst b) (floor_passing hits)"
    unfolding floor_passing_def by (rule sorted_wrt_filter)
  then show ?thesis by (simp add: sorted_wrt_map)
qed

lemma strip_duty: "strip ''duty'' \<noteq> []"
  by (simp add: strip_empty_iff is_space_def)

lemma search_tie: "search tie_retriever ''duty'' None
     = Inr [result_of verse_2_47 (1/2) 1, result_of verse_3_8 (1/2) 2]"
  by (simp add: search_def strip_duty tie_retriever_def py_get_def)

lemma search_small: "search small_retriever ''duty'' None
     = Inr [result_of verse_3_8 (3/4) 1, result_of verse_2_47 (1/4) 2]"
  by (simp add: search_def strip_duty small_retriever_def py_get_def)

text \<open>
  Claim C4, as the code has it.  A blank query (empty or whitespace only) gives the empty
  list without error.  Every result that \<open>search\<close> returns has a score of at least 0.1.
  \<open>search\<close> does not sort: the results keep the order of the index, so their scores are
  in non-increasing order whenever the index returns its hits in non-increasing order.
  Equal scores stay next to each other, so the order need not be strict.
\<close>

theorem search_floor_and_order:
  "((\<forall>c\<in>set query. is_space c) \<longrightarrow> search self query k = Inr [])
   \<and> (\<forall>rs. search self query k = Inr rs \<longrightarrow>
         (\<forall>r\<in>set rs. 0.1 \<le> score r)
         \<and> (sorted_wrt (\<ge>) (map fst (index_search self query))
              \<longrightarrow> sorted_wrt (\<ge>) (map score rs)))"
proof (intro conjI allI impI)
  assume "\<forall>c\<in>set query. is_space c"
  then have "strip query = []" by (simp add: strip_empty_iff)
  then show "search self query k = Inr []" by (simp add: search_def)
next
  fix rs
  assume rs: "search self query k = Inr rs"
  from search_scores(3) [OF rs] obtain n where
    n: "map score rs = take n (map fst (floor_passing (index_search self query)))" by blast
  show "\<forall>r\<in>set rs. 0.1 \<le> score r"
  proof
    fix r assume "r \<in> set rs"
    then have "score r \<in> set (map score rs)" by simp
    with n have "score r \<in> set (map fst (floor_passing (index_search self query)))"
      by (metis in_set_takeD)
    then obtain idx where "(score r, idx) \<in> set (floor_passing (index_search self query))"
      by auto
    then show "0.1 \<le> score r" by (rule floor_passing_scores)
  qed
next
  fix rs
  assume rs: "search self query k = Inr rs"
    and sorted: "sorted_wrt (\<ge>) (map fst (index_search self query))"
  from search_scores(3) [OF rs] obtain n where
    n: "map score rs = take n (map fst (floor_passing (index_search self query)))" by blast
  from floor_passing_sorted [OF sorted]
  have "sorted_wrt (\<ge>) (take n (map fst (floor_passing (index_search self query))))"
    by (rule sorted_wrt_take)
  with n show "sorted_wrt (\<ge>) (map score rs)" by simp
qed

theorem search_strictly_descending_counterexample:
  "search tie_retriever ''duty'' None
     = Inr [result_of verse_2_47 (1/2) 1, result_of verse_3_8 (1/2) 2]
   \<and> \<not> score (result_of verse_2_47 (1/2) 1) > score (result_of verse_3_8 (1/2) 2)"
  by (simp add: search_tie result_of_def)

theorem search_floor_and_order_witness:
  "search small_retriever ''   '' None = Inr []
   \<and> search small_retriever ''duty'' None
       = Inr [result_of verse_3_8 (3/4) 1, result_of verse_2_47 (1/4) 2]
   \<and> 0.1 \<le> score (result_of verse_3_8 (3/4) 1)
   \<and> sorted_wrt (\<ge>) (map score [result_of verse_3_8 (3/4) 1, result_of verse_2_47 (1/4) 2])"
proof -
  have blank: "\<forall>c\<in>set ''   ''. is_space c" by (simp add: is_space_def)
  have ordered: "sorted_wrt (\<ge>) (map fst (index_search small_retriever ''duty''))"
    by (simp add: small_retriever_def)
  have mem: "result_of verse_3_8 (3/4) 1
      \<in> set [result_of verse_3_8 (3/4) 1, result_of verse_2_47 (1/4) 2]" by simp
  from search_floor_and_order [of "''   ''" small_retriever None] blank
  have "search small_retriever ''   '' None = Inr []" by blast
  moreover from search_floor_and_order [of "''duty''" small_retriever None] search_small ordered mem
  have "0.1 \<le> score (result_of verse_3_8 (3/4) 1)
    \<and> sorted_wrt (\<ge>) (map score [result_of verse_3_8 (3/4) 1, result_of verse_2_47 (1/4) 2])"
    by blast
  ultimately show ?thesis using search_small by simp
qed

subsection \<open>Retriever: lookup by citation and the best-answer bundle\<close>

text \<open>
  Claim C8.  When some stored verse has the pair (chapter, verse), \<open>get_verse_by_citation\<close>
  returns a result with score 1.0 whose chapter, verse, identifier, text and Sanskrit
  fields are those of a stored verse with that pair (the first one in the list).  When the
  pairs of the corpus are unique, as the data model requires, the result for the pair of
  any stored verse is that verse with score 1.0 and rank 1.  For a pair that no stored
  verse has, the function returns \<open>None\<close>.
\<close>

theorem get_verse_by_citation_correct:
  "((\<exists>d\<in>set (docs self). chapter d = c \<and> verse d = v) \<longrightarrow>
      (\<exists>d\<in>set (docs self). \<exists>r. chapter d = c \<and> verse d = v
          \<and> get_verse_by_citation self c v = Some r
          \<and> score r = 1 \<and> chapter r = c \<and> verse r = v
          \<and> doc_id r = doc_id d \<and> text r = text d \<and> sanskrit r = sanskrit d))
   \<and> (distinct (map (\<lambda>d. (chapter d, verse d)) (docs self)) \<longrightarrow>
        (\<forall>d\<in>set (docs self). get_verse_by_citation self (chapter d) (verse d)
            = Some (result_of d 1 1)))
   \<and> ((\<forall>d\<in>set (docs self). \<not> (chapter d = c \<and> verse d = v)) \<longrightarrow>
        get_verse_by_citation self c v = None)"
proof (intro conjI impI ballI)
  assume "\<exists>d\<in>set (docs self). chapter d = c \<and> verse d = v"
  then have "scan_docs (docs self) c v \<noteq> None" by (simp add: scan_docs_None)
  then obtain r where r: "scan_docs (docs self) c v = Some r" by blast
  from scan_docs_Some [OF r] obtain d where
    d: "d \<in> set (docs self)" "chapter d = c" "verse d = v" "r = result_of d 1 1" by blast
  then have "score r = 1 \<and> chapter r = c \<and> verse r = v
      \<and> doc_id r = doc_id d \<and> text r = text d \<and> sanskrit r = sanskrit d"
    by (simp add: result_of_def)
  with d r show "\<exists>d\<in>set (docs self). \<exists>r. chapter d = c \<and> verse d = v
          \<and> get_verse_by_citation self c v = Some r
          \<and> score r = 1 \<and> chapter r = c \<and> verse r = v
          \<and> doc_id r = doc_id d \<and> text r = text d \<and> sanskrit r = sanskrit d"
    unfolding get_verse_by_citation_def by blast
next
  fix d
  assume dist: "distinct (map (\<lambda>d. (chapter d, verse d)) (docs self))"
    and d: "d \<in> set (docs self)"
  from d have "scan_docs (docs self) (chapter d) (verse d) \<noteq> None"
    by (auto simp: scan_docs_None)
  then obtain r where r: "scan_docs (docs self) (chapter d) (verse d) = Some r" by blast
  from scan_docs_Some [OF r] obtain d' where
    d': "d' \<in> set (docs self)" "chapter d' = chapter d" "verse d' = verse d"
      "r = result_of d' 1 1" by blast
  from dist have "inj_on (\<lambda>d. (chapter d, verse d)) (set (docs self))"
    by (simp add: distinct_map)
  with d d' have "d' = d" by (auto dest: inj_onD)
  with r d' show "get_verse_by_citation self (chapter d) (verse d) = Some (result_of d 1 1)"
    by (simp add: get_verse_by_citation_def)
next
  assume "\<forall>d\<in>set (docs self). \<not> (chapter d = c \<and> verse d = v)"
  then show "get_verse_by_citation self c v = None"
    by (simp add: get_verse_by_citation_def scan_docs_None)
qed

theorem get_verse_by_citation_correct_witness:
  "get_verse_by_citation small_retriever 3 8 = Some (result_of verse_3_8 1 1)
   \<and> get_verse_by_citation small_retriever 9 9 = None"
proof -
  have dist: "distinct (map (\<lambda>d. (chapter d, verse d)) (docs small_retriever))"
    by (simp add: small_retriever_def verse_2_47_def verse_3_8_def)
  have mem: "verse_3_8 \<in> set (docs small_retriever)" by (simp add: small_retriever_def)
  have absent: "\<forall>d\<in>set (docs small_retriever). \<not> (chapter d = 9 \<and> verse d = 9)"
    by (simp add: small_retriever_def verse_2_47_def verse_3_8_def)
  have key: "chapter verse_3_8 = 3 \<and> verse verse_3_8 = 8" by (simp add: verse_3_8_def)
  from get_verse_by_citation_correct [of small_retriever 3 8] dist mem
  have "get_verse_by_citation small_retriever (chapter verse_3_8) (verse verse_3_8)
      = Some (result_of verse_3_8 1 1)" by blast
  moreover from get_verse_by_citation_correct [of small_retriever 9 9] absent
  have "get_verse_by_citation small_retriever 9 9 = None" by blast
  ultimately show ?thesis using key by simp
qed

text \<open>
  Claim C3.  \<open>search_best_answer\<close> is decided by what \<open>search(query, k=None)\<close> returns.
  For a query that is not blank these results are as many as the hits that pass the score
  floor.  With no result it returns \<open>None\<close>.  Otherwise the best verse is the first
  result, the context verses are the next four at most (the results at positions 2 to 5),
  the confidence is the score of the best verse, the total is the number of all results,
  and the total is at least one more than the number of context verses.  The best verse
  carries rank 1 whenever the first hit of the index passes the floor, as it does for an
  index that returns its hits by descending score.  An IndexError of \<open>search\<close> (an index
  that is out of range for the verse list) is passed on.
\<close>

theorem search_best_answer_bundle:
  "(\<forall>e. search self query None = Inl e \<longrightarrow> search_best_answer self query = Inl e)
   \<and> (\<forall>results. search self query None = Inr results \<longrightarrow>
        (strip query \<noteq> [] \<longrightarrow>
           length results = length (floor_passing (index_search self query)))
        \<and> (results = [] \<longrightarrow> search_best_answer self query = Inr None)
        \<and> (results \<noteq> [] \<longrightarrow>
             (\<exists>b. search_best_answer self query = Inr (Some b)
                \<and> best_verse b = hd results
                \<and> context_verses b = take 4 (tl results)
                \<and> length (context_verses b) \<le> 4
                \<and> confidence b = score (best_verse b)
                \<and> total_matches b = length results
                \<and> 1 + length (context_verses b) \<le> total_matches b
                \<and> (\<forall>s idx rest. index_search self query = (s, idx) # rest
                       \<longrightarrow> idx \<noteq> - 1 \<longrightarrow> \<not> s < 0.1 \<longrightarrow> rank (best_verse b) = 1))))"
proof (intro conjI allI impI)
  fix e assume e: "search self query None = Inl e"
  then have "strip query \<noteq> []" by (auto simp: search_def)
  with e show "search_best_answer self query = Inl e" by (simp add: search_best_answer_def)
next
  fix results assume "search self query None = Inr results" "strip query \<noteq> []"
  from search_scores(2) [OF this(1) this(2) refl]
  have "length (map score results) = length (map fst (floor_passing (index_search self query)))"
    by simp
  then show "length results = length (floor_passing (index_search self query))" by simp
next
  fix results assume "search self query None = Inr results" "results = []"
  then show "search_best_answer self query = Inr None"
    by (simp add: search_best_answer_def)
next
  fix results assume rs: "search self query None = Inr results" and ne: "results \<noteq> []"
  from ne obtain best others where split: "results = best # others" by (cases results) auto
  from rs ne have q: "strip query \<noteq> []" using search_scores(1) by blast
  define b where "b = \<lparr>best_verse = best, context_verses = take 4 others,
      total_matches = length results, confidence = score best\<rparr>"
  from rs q split have run: "search_best_answer self query = Inr (Some b)"
    by (cases others) (simp_all add: search_best_answer_def b_def)
  have fields: "best_verse b = hd results \<and> context_verses b = take 4 (tl results)
      \<and> length (context_verses b) \<le> 4 \<and> confidence b = score (best_verse b)
      \<and> total_matches b = length results \<and> 1 + length (context_verses b) \<le> total_matches b"
    using split by (simp add: b_def)
  have first: "\<forall>s idx rest. index_search self query = (s, idx) # rest
      \<longrightarrow> idx \<noteq> - 1 \<longrightarrow> \<not> s < 0.1 \<longrightarrow> rank (best_verse b) = 1"
  proof (intro allI impI)
    fix s idx rest
    assume hits: "index_search self query = (s, idx) # rest" and keep: "idx \<noteq> - 1" "\<not> s < 0.1"
    from rs q have "search_loop (docs self) 0 (index_search self query) = Inr results"
      by (auto simp: search_def split: sum.splits)
    with hits have loop: "search_loop (docs self) 0 ((s, idx) # rest) = Inr results" by simp
    from keep have "\<not> (idx = - 1 \<or> s < 0.1)" by simp
    from loop [unfolded search_loop_keep [OF this]] obtain doc more where
      "results = result_of doc s (int 0 + 1) # more"
      by (auto split: sum.splits)
    with split have "best = result_of doc s 1" by simp
    then show "rank (best_verse b) = 1" by (simp add: b_def result_of_def)
  qed
  from run fields first
  show "\<exists>b. search_best_answer self query = Inr (Some b)
                \<and> best_verse b = hd results
                \<and> context_verses b = take 4 (tl results)
                \<and> length (context_verses b) \<le> 4
                \<and> confidence b = score (best_verse b)
                \<and> total_matches b = length results
                \<and> 1 + length (context_verses b) \<le> total_matches b
                \<and> (\<forall>s idx rest. index_search self query = (s, idx) # rest
                       \<longrightarrow> idx \<noteq> - 1 \<longrightarrow> \<not> s < 0.1 \<longrightarrow> rank (best_verse b) = 1)"
    by blast
qed

theorem search_best_answer_bundle_witness:
  "search_best_answer small_retriever ''duty''
     = Inr (Some \<lparr>best_verse = result_of verse_3_8 (3/4) 1,
                  context_verses = [result_of verse_2_47 (1/4) 2],
                  total_matches = 2, confidence = 3/4\<rparr>)
   \<and> search_best_answer small_retriever ''  '' = Inr None"
proof -
  have blank: "search small_retriever ''  '' None = Inr []"
    by (simp add: search_def strip_empty_iff is_space_def)
  from search_best_answer_bundle [of small_retriever "''  ''"] blank
  have none: "search_best_answer small_retriever ''  '' = Inr None" by blast
  have ne: "[result_of verse_3_8 (3/4) 1, result_of verse_2_47 (1/4) 2] \<noteq> []" by simp
  from search_best_answer_bundle [of small_retriever "''duty''"] search_small ne
  obtain b where b: "search_best_answer small_retriever ''duty'' = Inr (Some b)"
    "best_verse b = hd [result_of verse_3_8 (3/4) 1, result_of verse_2_47 (1/4) 2]"
    "context_verses b = take 4 (tl [result_of verse_3_8 (3/4) 1, result_of verse_2_47 (1/4) 2])"
    "confidence b = score (best_verse b)"
    "total_matches b = length [result_of verse_3_8 (3/4) 1, result_of verse_2_47 (1/4) 2]"
    by blast
  then have "b = \<lparr>best_verse = result_of verse_3_8 (3/4) 1,
                  context_verses = [result_of verse_2_47 (1/4) 2],
                  total_matches = 2, confidence = 3/4\<rparr>"
    by (simp add: result_of_def)
  with b(1) none show ?thesis by simp
qed

subsection \<open>The extractive answer\<close>

lemma has_maximum:
  fixes f :: "'a \<Rightarrow> nat"
  shows "xs \<noteq> [] \<Longrightarrow> \<exists>s\<in>set xs. \<forall>t\<in>set xs. f t \<le> f s"
proof (induction xs)
  case Nil
  then show ?case by simp
next
  case (Cons x xs)
  show ?case
  proof (cases "xs = []")
    case True
    then show ?thesis by simp
  next
    case False
    with Cons.IH obtain s where s: "s \<in> set xs" "\<forall>t\<in>set xs. f t \<le> f s" by blast
    show ?thesis
    proof (cases "f s \<le> f x")
      case True
      with s have "\<forall>t\<in>set (x # xs). f t \<le> f x" by auto
      then show ?thesis by auto
    next
      case False
      with s have "\<forall>t\<in>set (x # xs). f t \<le> f s" by auto
      with s(1) show ?thesis by auto
    qed
  qed
qed

lemma find_maximum:
  fixes f :: "'a \<Rightarrow> nat"
  assumes "xs \<noteq> []"
  shows "\<exists>s. find (\<lambda>s. \<forall>t\<in>set xs. f t \<le> f s) xs = Some s"
proof -
  from has_maximum [OF assms, of f] have "find (\<lambda>s. \<forall>t\<in>set xs. f t \<le> f s) xs \<noteq> None"
    by (auto simp: find_None_iff)
  then show ?thesis by blast
qed

text \<open>The first maximum of a list, given the best score seen so far.\<close>

lemma find_maximum_Cons:
  fixes f :: "'a \<Rightarrow> nat"
  shows "find (\<lambda>s. \<forall>t\<in>set (x # xs). f t \<le> f s) (x # xs) =
     (if \<forall>t\<in>set xs. f t \<le> f x then Some x
      else find (\<lambda>s. \<forall>t\<in>set xs. f t \<le> f s) xs)"
proof (cases "\<forall>t\<in>set xs. f t \<le> f x")
  case True
  then have all: "\<forall>t\<in>set (x # xs). f t \<le> f x" by simp
  show ?thesis by (simp only: find.simps if_P [OF all] if_P [OF True])
next
  case False
  then obtain u where u: "u \<in> set xs" "f x < f u" by (auto simp: not_le)
  have eq: "find (\<lambda>s. \<forall>t\<in>set (x # xs). f t \<le> f s) xs
      = find (\<lambda>s. \<forall>t\<in>set xs. f t \<le> f s) xs"
  proof (rule find_cong [OF refl])
    fix s assume "s \<in> set xs"
    show "(\<forall>t\<in>set (x # xs). f t \<le> f s) = (\<forall>t\<in>set xs. f t \<le> f s)"
    proof
      assume all: "\<forall>t\<in>set xs. f t \<le> f s"
      with u have "f u \<le> f s" by blast
      with u(2) have "f x \<le> f s" by simp
      with all show "\<forall>t\<in>set (x # xs). f t \<le> f s" by simp
    next
      assume "\<forall>t\<in>set (x # xs). f t \<le> f s"
      then show "\<forall>t\<in>set xs. f t \<le> f s" by simp
    qed
  qed
  from False have nall: "\<not> (\<forall>t\<in>set (x # xs). f t \<le> f x)" by simp
  show ?thesis by (simp only: find.simps if_not_P [OF nall] if_not_P [OF False] eq)
qed

lemma pick_Nil: "pick f [] best = best"
  by (simp add: pick_def)

lemma pick_Cons:
  "pick f (x # xs) best = pick f xs (if snd best < f x then (x, f x) else best)"
proof (cases "snd best < f x")
  case True
  show ?thesis
  proof (cases "\<forall>t\<in>set xs. f t \<le> f x")
    case all: True
    with True show ?thesis by (auto simp: pick_def find_maximum_Cons)
  next
    case False
    with True show ?thesis
      unfolding pick_def find_maximum_Cons by (auto simp: not_le)
  qed
next
  case False
  show ?thesis
  proof (cases "\<forall>t\<in>set xs. f t \<le> snd best")
    case True
    with False show ?thesis by (auto simp: pick_def not_less)
  next
    case nall: False
    then obtain u where "u \<in> set xs" "snd best < f u" by (auto simp: not_le)
    with False have "\<not> (\<forall>t\<in>set xs. f t \<le> f x)" by (auto simp: not_less not_le) (meson le_trans not_le)
    with False nall show ?thesis
      unfolding pick_def find_maximum_Cons by (auto simp: not_less)
  qed
qed

lemma sentence_loop_pick:
  "sentence_loop qw ss best =
     pick (\<lambda>s. card (qw \<inter> set (split_ws (lower s))))
       (filter (\<lambda>s. 20 \<le> length s) (map strip ss)) best"
proof (induction ss arbitrary: best)
  case Nil
  then show ?case by (simp add: pick_Nil)
next
  case (Cons s ss)
  show ?case
  proof (cases "length (strip s) < 20")
    case True
    with Cons.IH show ?thesis by (simp add: sentence_step_def)
  next
    case False
    with Cons.IH show ?thesis by (simp add: sentence_step_def Let_def pick_Cons not_less)
  qed
qed

lemma best_sentence_spec:
  "fst (sentence_loop (set (split_ws (lower query))) (re_split_sentences verse_text) ([], 0)) =
     (case best_scoring query (candidate_sentences verse_text) of
        None \<Rightarrow> []
      | Some sentence \<Rightarrow> sentence)"
proof -
  define cs where "cs = candidate_sentences verse_text"
  have f: "(\<lambda>s. card (set (split_ws (lower query)) \<inter> set (split_ws (lower s)))) = overlap query"
    by (rule ext) (simp add: overlap_def)
  have loop: "sentence_loop (set (split_ws (lower query))) (re_split_sentences verse_text) ([], 0)
      = pick (overlap query) cs ([], 0)"
    unfolding sentence_loop_pick f cs_def candidate_sentences_def ..
  show ?thesis
  proof (cases "\<forall>s\<in>set cs. overlap query s = 0")
    case True
    then have "pick (overlap query) cs ([], 0) = ([], 0)" by (simp add: pick_def)
    moreover from True have "best_scoring query cs = None" by (simp add: best_scoring_def)
    ultimately show ?thesis unfolding loop cs_def by simp
  next
    case False
    then have "cs \<noteq> []" by auto
    from find_maximum [OF this, of "overlap query"] obtain s where
      s: "find (\<lambda>s. \<forall>t\<in>set cs. overlap query t \<le> overlap query s) cs = Some s" by blast
    from False have "\<not> (\<forall>s\<in>set cs. overlap query s \<le> snd (([]::string), 0::nat))" by simp
    then have "pick (overlap query) cs ([], 0) = (s, overlap query s)"
      unfolding pick_def s by (simp only: if_False option.sel)
    moreover from False s have "best_scoring query cs = Some s"
      unfolding best_scoring_def by (simp only: if_False)
    ultimately show ?thesis unfolding loop cs_def by simp
  qed
qed

lemma best_scoring_long:
  assumes "best_scoring query (candidate_sentences verse_text) = Some sentence"
  shows "20 \<le> length sentence"
proof -
  from assms have "find (\<lambda>s. \<forall>t\<in>set (candidate_sentences verse_text).
      overlap query t \<le> overlap query s) (candidate_sentences verse_text) = Some sentence"
    by (simp add: best_scoring_def split: if_splits)
  then have "sentence \<in> set (candidate_sentences verse_text)"
    by (auto simp: find_Some_iff)
  then show ?thesis by (simp add: candidate_sentences_def)
qed

lemma extractive_answer_shape:
  "extractive_answer query passages = Inr (extractive_answer_spec query passages)"
proof (cases passages)
  case Nil
  then show ?thesis by (simp add: extractive_answer_def extractive_answer_spec_def)
next
  case (Cons p0 others)
  show ?thesis
  proof (cases "best_scoring query (candidate_sentences (text p0))")
    case None
    with Cons show ?thesis
      by (cases others)
        (simp_all add: extractive_answer_def extractive_answer_spec_def Let_def
          best_sentence_spec first_part up_to_first_period_def related_guidance_def)
  next
    case (Some sentence)
    from best_scoring_long [OF Some] have "sentence \<noteq> []" by auto
    with Cons Some show ?thesis
      by (cases others)
        (simp_all add: extractive_answer_def extractive_answer_spec_def Let_def
          best_sentence_spec related_guidance_def)
  qed
qed

text \<open>
  Claim C5.  \<open>extractive_answer\<close> never raises, and its result is the answer that the
  specification describes: the fixed message for an empty passage list; otherwise
  "The Bhagavad Gita teaches: ", the chosen sentence, a space and the citation of the top
  passage, followed by the "Related guidance" line with the citations of passages 2 and 3
  when at least two passages were supplied.  The chosen sentence is the first of the
  highest-scoring sentences of at least 20 characters when that score is above zero, and
  the text up to the first period, closed by a period, otherwise.  Sentences are the
  pieces between runs of sentence punctuation with surrounding whitespace removed; the
  score counts the words shared by the lower-case word sets of sentence and query.
\<close>

theorem extractive_answer_refines_spec:
  "extractive_answer query passages = Inr (extractive_answer_spec query passages)"
  by (rule extractive_answer_shape)

theorem extractive_answer_refines_spec_witness:
  "extractive_answer ''duty'' [duty_verse]
     = Inr ''The Bhagavad Gita teaches: do your duty without attachment to results [2.47]''"
proof -
  have "extractive_answer_spec ''duty'' [duty_verse]
      = ''The Bhagavad Gita teaches: do your duty without attachment to results [2.47]''"
    by code_simp
  with extractive_answer_refines_spec [of "''duty''" "[duty_verse]"] show ?thesis by simp
qed

subsection \<open>Citations in the extractive answer\<close>

lemma match_citation_SomeD:
  assumes "match_citation s = Some (d1, d2, r)"
  shows "s = CHR ''['' # d1 @ CHR ''.'' # d2 @ CHR '']'' # r"
proof -
  from assms obtain c r1 where s: "s = c # r1" by (cases s) (auto simp: match_citation_def)
  from assms s have c: "c = CHR ''[''" and d1: "d1 = takeWhile is_digit r1"
    by (auto simp: match_citation_def Let_def split: if_splits list.splits)
  from assms s obtain r2 where r2: "dropWhile is_digit r1 = CHR ''.'' # r2"
    by (auto simp: match_citation_def Let_def split: if_splits list.splits)
  from assms s r2 have d2: "d2 = takeWhile is_digit r2" and r3: "dropWhile is_digit r2 = CHR '']'' # r"
    by (auto simp: match_citation_def Let_def split: if_splits list.splits)
  have "r1 = takeWhile is_digit r1 @ dropWhile is_digit r1" by simp
  also have "\<dots> = d1 @ CHR ''.'' # r2" using d1 r2 by simp
  also have "r2 = takeWhile is_digit r2 @ dropWhile is_digit r2" by simp
  then have "r2 = d2 @ CHR '']'' # r" using d2 r3 by simp
  finally show ?thesis using s c by simp
qed

lemma match_citation_sep:
  assumes sep: "\<not> is_digit sep" "sep \<noteq> CHR ''.''" "sep \<noteq> CHR '']''" "sep \<noteq> CHR ''[''"
  shows "match_citation (xs @ sep # ys) =
           map_option (\<lambda>(d1, d2, r). (d1, d2, r @ sep # ys)) (match_citation xs)"
proof (cases xs)
  case Nil
  with sep show ?thesis by (simp add: match_citation_def)
next
  case (Cons c r1)
  have tw: "takeWhile is_digit (a @ sep # ys) = takeWhile is_digit a" for a
    using sep(1) by (induction a) auto
  have dw: "dropWhile is_digit (a @ sep # ys) = dropWhile is_digit a @ sep # ys" for a
    using sep(1) by (induction a) auto
  show ?thesis
  proof (cases "dropWhile is_digit r1")
    case Nil
    with Cons sep show ?thesis
      by (simp add: match_citation_def Let_def tw dw del: dropWhile_eq_Nil_conv)
  next
    case r2: (Cons p r2)
    show ?thesis
    proof (cases "dropWhile is_digit r2")
      case Nil
      with Cons r2 sep show ?thesis
        by (simp add: match_citation_def Let_def tw dw del: dropWhile_eq_Nil_conv)
    next
      case r3: (Cons q r3)
      with Cons r2 sep show ?thesis
        by (simp add: match_citation_def Let_def tw dw del: dropWhile_eq_Nil_conv)
    qed
  qed
qed

lemma findall_sep:
  assumes sep: "\<not> is_digit sep" "sep \<noteq> CHR ''.''" "sep \<noteq> CHR '']''" "sep \<noteq> CHR ''[''"
  shows "findall_citations (xs @ sep # ys) = findall_citations xs @ findall_citations ys"
proof (induction xs rule: findall_citations.induct)
  case 1
  from sep have "match_citation (sep # ys) = None" by (simp add: match_citation_def)
  then show ?case by simp
next
  case (2 c cs)
  show ?case
  proof (cases "match_citation (c # cs)")
    case None
    with match_citation_sep [OF sep, of "c # cs" ys]
    have "match_citation (c # cs @ sep # ys) = None" by simp
    with None 2(1) show ?thesis by simp
  next
    case (Some m)
    obtain d1 d2 r where m: "m = (d1, d2, r)" by (cases m)
    with Some match_citation_sep [OF sep, of "c # cs" ys]
    have "match_citation (c # cs @ sep # ys) = Some (d1, d2, r @ sep # ys)" by simp
    with Some m 2(2) show ?thesis by simp
  qed
qed

lemma findall_no_bracket: "CHR ''['' \<notin> set s \<Longrightarrow> findall_citations s = []"
proof (induction s rule: findall_citations.induct)
  case 1
  then show ?case by simp
next
  case (2 c cs)
  from 2(3) have "match_citation (c # cs) = None" by (auto simp: match_citation_def)
  with 2 show ?case by simp
qed

lemma findall_no_inner_period:
  "CHR ''.'' \<notin> set (butlast s) \<Longrightarrow> findall_citations s = []"
proof (induction s rule: findall_citations.induct)
  case 1
  then show ?case by simp
next
  case (2 c cs)
  have none: "match_citation (c # cs) = None"
  proof (rule ccontr)
    assume "match_citation (c # cs) \<noteq> None"
    then obtain d1 d2 r where "match_citation (c # cs) = Some (d1, d2, r)" by auto
    then have "c # cs = CHR ''['' # d1 @ CHR ''.'' # d2 @ CHR '']'' # r"
      by (rule match_citation_SomeD)
    then have "butlast (c # cs) = CHR ''['' # d1 @ CHR ''.'' # butlast (d2 @ CHR '']'' # r)"
      by (simp add: butlast_append)
    with 2(3) show False by simp
  qed
  from 2(3) have "CHR ''.'' \<notin> set (butlast cs)" by (cases cs) auto
  with 2(1) none show ?case by simp
qed

lemma findall_join:
  "findall_citations (join '', '' cs) = concat (map findall_citations cs)"
proof (induction cs rule: induct_list012)
  case 1
  then show ?case by simp
next
  case (2 x)
  then show ?case by simp
next
  case (3 x y ys)
  have comma: "\<not> is_digit CHR '',''" "CHR '','' \<noteq> CHR ''.''" "CHR '','' \<noteq> CHR '']''" "CHR '','' \<noteq> CHR ''[''"
    by (simp_all add: is_digit_def)
  have space: "\<not> is_digit CHR '' ''" "CHR '' '' \<noteq> CHR ''.''" "CHR '' '' \<noteq> CHR '']''" "CHR '' '' \<noteq> CHR ''[''"
    by (simp_all add: is_digit_def)
  have "join '', '' (x # y # ys) = x @ CHR '','' # ([] @ CHR '' '' # join '', '' (y # ys))"
    by simp
  then have "findall_citations (join '', '' (x # y # ys))
      = findall_citations x @ findall_citations [] @ findall_citations (join '', '' (y # ys))"
    by (simp only: findall_sep [OF comma] findall_sep [OF space])
  with 3(2) show ?case by simp
qed

lemma digits_of_nat_digits: "c \<in> set (digits_of_nat n) \<Longrightarrow> is_digit c"
proof (induction n arbitrary: c rule: digits_of_nat.induct)
  case (1 n)
  show ?case
  proof (cases "n < 10")
    case True
    with 1(2) have "c = char_of (48 + n)" by (simp add: digits_of_nat.simps)
    with True show ?thesis by (simp add: is_digit_def)
  next
    case False
    with 1(2) have "c \<in> set (digits_of_nat (n div 10)) \<or> c = char_of (48 + n mod 10)"
      by (subst (asm) digits_of_nat.simps) auto
    then show ?thesis
    proof
      assume "c \<in> set (digits_of_nat (n div 10))"
      with 1(1) False show ?thesis by simp
    next
      have "n mod 10 < 10" by simp
      moreover assume "c = char_of (48 + n mod 10)"
      ultimately show ?thesis by (simp add: is_digit_def)
    qed
  qed
qed

lemma str_of_int_chars: "c \<in> set (str_of_int i) \<Longrightarrow> is_digit c \<or> c = CHR ''-''"
  by (auto simp: str_of_int_def dest: digits_of_nat_digits split: if_splits)

lemma not_digit_punct:
  "\<not> is_digit CHR ''[''" "\<not> is_digit CHR '']''" "\<not> is_digit CHR ''.''" "\<not> is_digit CHR ''-''"
  by (simp_all add: is_digit_def)

lemma str_of_int_no_bracket:
  "CHR ''['' \<notin> set (str_of_int i)" "CHR '']'' \<notin> set (str_of_int i)"
  using str_of_int_chars not_digit_punct by fastforce+

lemma findall_build_citation:
  "set (extract_citations_from_text (build_citation c v)) \<subseteq> {build_citation c v}"
proof -
  define B where "B = str_of_int c @ CHR ''.'' # str_of_int v @ '']''"
  have s: "build_citation c v = CHR ''['' # B" by (simp add: build_citation_def B_def)
  have nob: "CHR ''['' \<notin> set B" by (simp add: B_def str_of_int_no_bracket)
  have bl: "butlast B = str_of_int c @ CHR ''.'' # str_of_int v"
    by (simp add: B_def butlast_append)
  have noc: "CHR '']'' \<notin> set (butlast B)" by (simp add: bl str_of_int_no_bracket)
  show ?thesis
  proof (cases "match_citation (CHR ''['' # B)")
    case None
    with nob show ?thesis
      by (simp add: s extract_citations_from_text_def findall_no_bracket)
  next
    case (Some m)
    obtain d1 d2 r where m: "m = (d1, d2, r)" by (cases m)
    with Some have "match_citation (CHR ''['' # B) = Some (d1, d2, r)" by simp
    then have eq: "CHR ''['' # B = CHR ''['' # d1 @ CHR ''.'' # d2 @ CHR '']'' # r"
      by (rule match_citation_SomeD)
    have r: "r = []"
    proof (rule ccontr)
      assume "r \<noteq> []"
      with eq have "butlast B = d1 @ CHR ''.'' # d2 @ CHR '']'' # butlast r"
        by (simp add: butlast_append)
      with noc show False by simp
    qed
    from eq nob have "CHR ''['' \<notin> set r" by auto
    then have "findall_citations r = []" by (rule findall_no_bracket)
    with Some m eq r show ?thesis
      by (simp add: s extract_citations_from_text_def)
  qed
qed

lemma extract_sep:
  assumes "\<not> is_digit sep" "sep \<noteq> CHR ''.''" "sep \<noteq> CHR '']''" "sep \<noteq> CHR ''[''"
  shows "extract_citations_from_text (xs @ sep # ys) =
           extract_citations_from_text xs @ extract_citations_from_text ys"
  by (simp add: extract_citations_from_text_def findall_sep [OF assms])

lemma extract_no_inner_period:
  "CHR ''.'' \<notin> set (butlast s) \<Longrightarrow> extract_citations_from_text s = []"
  by (simp add: extract_citations_from_text_def findall_no_inner_period)

lemma extract_join:
  "extract_citations_from_text (join '', '' cs) = concat (map extract_citations_from_text cs)"
  by (simp add: extract_citations_from_text_def [abs_def] findall_join map_concat comp_def)

lemma extract_join_citations:
  "set (extract_citations_from_text
          (join '', '' (map (\<lambda>p. build_citation (chapter p) (verse p)) ps)))
     \<subseteq> set (map (\<lambda>p. build_citation (chapter p) (verse p)) ps)"
  unfolding extract_join using findall_build_citation by fastforce

lemma re_split_no_period:
  "piece \<in> set (re_split_sentences s) \<Longrightarrow> CHR ''.'' \<notin> set piece"
proof (induction s arbitrary: piece rule: re_split_sentences.induct)
  case (1 s)
  have tw: "CHR ''.'' \<notin> set (takeWhile (\<lambda>c. \<not> is_sentence_end c) s)"
    by (auto dest: set_takeWhileD simp: is_sentence_end_def)
  show ?case
  proof (cases "dropWhile (\<lambda>c. \<not> is_sentence_end c) s = []")
    case True
    with 1(2) have "piece = takeWhile (\<lambda>c. \<not> is_sentence_end c) s"
      by (subst (asm) re_split_sentences.simps) (simp add: Let_def del: dropWhile_eq_Nil_conv)
    with tw show ?thesis by simp
  next
    case False
    with 1(2) have "piece = takeWhile (\<lambda>c. \<not> is_sentence_end c) s
        \<or> piece \<in> set (re_split_sentences
              (dropWhile is_sentence_end (dropWhile (\<lambda>c. \<not> is_sentence_end c) s)))"
      by (subst (asm) re_split_sentences.simps) (simp add: Let_def del: dropWhile_eq_Nil_conv)
    then show ?thesis
    proof
      assume "piece = takeWhile (\<lambda>c. \<not> is_sentence_end c) s"
      with tw show ?thesis by simp
    next
      assume "piece \<in> set (re_split_sentences
              (dropWhile is_sentence_end (dropWhile (\<lambda>c. \<not> is_sentence_end c) s)))"
      with 1(1) [OF refl refl False] show ?thesis by simp
    qed
  qed
qed

lemma set_strip: "set (strip s) \<subseteq> set s"
proof -
  have "set (strip s) \<subseteq> set (rev (dropWhile is_space s))"
    unfolding strip_def by (auto dest: set_dropWhileD)
  also have "\<dots> \<subseteq> set s" by (auto dest: set_dropWhileD)
  finally show ?thesis .
qed

lemma chosen_sentence_no_inner_period:
  "CHR ''.'' \<notin> set (butlast (''The Bhagavad Gita teaches: ''
      @ (case best_scoring query (candidate_sentences verse_text) of
           Some sentence \<Rightarrow> sentence
         | None \<Rightarrow> up_to_first_period verse_text)))"
proof (cases "best_scoring query (candidate_sentences verse_text)")
  case None
  have "butlast (''The Bhagavad Gita teaches: '' @ up_to_first_period verse_text)
      = ''The Bhagavad Gita teaches: '' @ takeWhile (\<lambda>c. c \<noteq> CHR ''.'') verse_text"
    by (simp add: up_to_first_period_def butlast_append)
  moreover have "CHR ''.'' \<notin> set (takeWhile (\<lambda>c. c \<noteq> CHR ''.'') verse_text)"
    by (auto dest: set_takeWhileD)
  ultimately show ?thesis using None by simp
next
  case (Some sentence)
  then have "find (\<lambda>s. \<forall>t\<in>set (candidate_sentences verse_text).
      overlap query t \<le> overlap query s) (candidate_sentences verse_text) = Some sentence"
    by (simp add: best_scoring_def split: if_splits)
  then have "sentence \<in> set (candidate_sentences verse_text)"
    by (auto simp: find_Some_iff)
  then obtain piece where "piece \<in> set (re_split_sentences verse_text)" "sentence = strip piece"
    by (auto simp: candidate_sentences_def)
  with re_split_no_period set_strip have "CHR ''.'' \<notin> set sentence" by blast
  then have "CHR ''.'' \<notin> set (''The Bhagavad Gita teaches: '' @ sentence)" by simp
  then have "CHR ''.'' \<notin> set (butlast (''The Bhagavad Gita teaches: '' @ sentence))"
    by (meson in_set_butlastD)
  with Some show ?thesis by simp
qed

lemma extract_related_guidance:
  "set (extract_citations_from_text
          (build_citation c v @ related_guidance passages))
     \<subseteq> insert (build_citation c v)
          (set (map (\<lambda>p. build_citation (chapter p) (verse p)) (take 2 (tl passages))))"
proof (cases "2 \<le> length passages")
  case False
  with findall_build_citation [of c v] show ?thesis
    by (auto simp: related_guidance_def)
next
  case True
  define J where "J = join '', '' (map (\<lambda>p. build_citation (chapter p) (verse p)) (take 2 (tl passages)))"
  have nl: "\<not> is_digit CHR 0x0A" "CHR 0x0A \<noteq> CHR ''.''" "CHR 0x0A \<noteq> CHR '']''" "CHR 0x0A \<noteq> CHR ''[''"
    by (simp_all add: is_digit_def)
  have sp: "\<not> is_digit CHR '' ''" "CHR '' '' \<noteq> CHR ''.''" "CHR '' '' \<noteq> CHR '']''" "CHR '' '' \<noteq> CHR ''[''"
    by (simp_all add: is_digit_def)
  have "build_citation c v @ related_guidance passages
      = build_citation c v @ CHR 0x0A # (''\<newline>Related guidance:'' @ CHR '' '' # J)"
    using True by (simp add: related_guidance_def J_def)
  then have "extract_citations_from_text (build_citation c v @ related_guidance passages)
      = extract_citations_from_text (build_citation c v)
        @ extract_citations_from_text ''\<newline>Related guidance:''
        @ extract_citations_from_text J"
    by (simp only: extract_sep [OF nl] extract_sep [OF sp])
  moreover have "extract_citations_from_text ''\<newline>Related guidance:'' = []"
    by (rule extract_no_inner_period) simp
  ultimately show ?thesis
    using findall_build_citation [of c v] extract_join_citations [of "take 2 (tl passages)"]
    by (auto simp: J_def)
qed

text \<open>
  Claim C1.  \<open>extractive_answer\<close> returns an answer, and every citation that
  \<open>extract_citations_from_text\<close> finds in it is the citation of one of the supplied
  passages.  Hence \<open>validate_answer\<close> on that answer and the same passages reports
  valid = True and an empty set of invalid citations.  The chosen sentence cannot bring
  a citation of its own: it holds no period, or a single one at its end.
\<close>

theorem extractive_answer_citations_valid:
  "\<exists>answer. extractive_answer query passages = Inr answer
      \<and> set (extract_citations_from_text answer)
           \<subseteq> set (map (\<lambda>p. build_citation (chapter p) (verse p)) passages)
      \<and> valid (validate_answer answer passages)
      \<and> invalid_citations (validate_answer answer passages) = {}"
proof -
  define answer where "answer = extractive_answer_spec query passages"
  have run: "extractive_answer query passages = Inr answer"
    unfolding answer_def by (rule extractive_answer_shape)
  have sub: "set (extract_citations_from_text answer)
      \<subseteq> set (map (\<lambda>p. build_citation (chapter p) (verse p)) passages)"
  proof (cases passages)
    case Nil
    have "CHR ''['' \<notin> set not_found_message" by (simp add: not_found_message_def)
    then have "extract_citations_from_text not_found_message = []"
      by (simp add: extract_citations_from_text_def findall_no_bracket)
    with Nil show ?thesis by (simp add: answer_def extractive_answer_spec_def)
  next
    case (Cons p0 others)
    define S where "S = ''The Bhagavad Gita teaches: ''
      @ (case best_scoring query (candidate_sentences (text p0)) of
           Some sentence \<Rightarrow> sentence
         | None \<Rightarrow> up_to_first_period (text p0))"
    define C where "C = build_citation (chapter p0) (verse p0) @ related_guidance passages"
    have sp: "\<not> is_digit CHR '' ''" "CHR '' '' \<noteq> CHR ''.''" "CHR '' '' \<noteq> CHR '']''" "CHR '' '' \<noteq> CHR ''[''"
      by (simp_all add: is_digit_def)
    have "answer = S @ CHR '' '' # C"
      using Cons by (simp add: answer_def extractive_answer_spec_def S_def C_def)
    then have "extract_citations_from_text answer
        = extract_citations_from_text S @ extract_citations_from_text C"
      by (simp only: extract_sep [OF sp])
    moreover have "extract_citations_from_text S = []"
      unfolding S_def by (rule extract_no_inner_period) (rule chosen_sentence_no_inner_period)
    ultimately have "set (extract_citations_from_text answer)
        \<subseteq> insert (build_citation (chapter p0) (verse p0))
          (set (map (\<lambda>p. build_citation (chapter p) (verse p)) (take 2 (tl passages))))"
      using extract_related_guidance [of "chapter p0" "verse p0" passages]
      by (simp add: C_def)
    also have "\<dots> \<subseteq> set (map (\<lambda>p. build_citation (chapter p) (verse p)) passages)"
      using Cons by (auto dest: in_set_takeD)
    finally show ?thesis .
  qed
  then have "set (extract_citations_from_text answer)
      - set (map (\<lambda>p. build_citation (chapter p) (verse p)) passages) = {}"
    by blast
  then have "valid (validate_answer answer passages)
      \<and> invalid_citations (validate_answer answer passages) = {}"
    by (simp add: validate_answer_def Let_def)
  with run sub show ?thesis by blast
qed

theorem extractive_answer_citations_valid_witness:
  "extractive_answer ''karma'' [work_passage, duty_passage]
     = Inr ''The Bhagavad Gita teaches: Perform your work. [3.8]\<newline>\<newline>Related guidance: [2.47]''
   \<and> valid (validate_answer
        ''The Bhagavad Gita teaches: Perform your work. [3.8]\<newline>\<newline>Related guidance: [2.47]''
        [work_passage, duty_passage])"
proof -
  have "extractive_answer_spec ''karma'' [work_passage, duty_passage]
      = ''The Bhagavad Gita teaches: Perform your work. [3.8]\<newline>\<newline>Related guidance: [2.47]''"
    by code_simp
  with extractive_answer_shape [of "''karma''" "[work_passage, duty_passage]"]
  have run: "extractive_answer ''karma'' [work_passage, duty_passage]
     = Inr ''The Bhagavad Gita teaches: Perform your work. [3.8]\<newline>\<newline>Related guidance: [2.47]''"
    by simp
  from extractive_answer_citations_valid [of "''karma''" "[work_passage, duty_passage]"]
  obtain answer where
    "extractive_answer ''karma'' [work_passage, duty_passage] = Inr answer"
    "valid (validate_answer answer [work_passage, duty_passage])"
    by (elim exE conjE) (rule that)
  with run show ?thesis by simp
qed

subsection \<open>Retriever: validating citations\<close>








lemma digits_all: "list_all is_digit (digits_of_nat n)"
  by (simp add: list_all_iff digits_of_nat_digits)


lemma strip_id:
  assumes "s \<noteq> []" "\<not> is_space (hd s)" "\<not> is_space (last s)"
  shows "strip s = s"
proof -
  from assms(1,2) have "dropWhile is_space s = s" by (cases s) auto
  moreover from assms(1,3) have "dropWhile is_space (rev s) = rev s"
    by (cases "rev s") (auto simp: last_rev [symmetric] hd_rev)
  ultimately show ?thesis by (simp add: strip_def)
qed











subsection \<open>Text cleaning\<close>

text \<open>
  On a text whose characters are all whitespace or printable ASCII, the second
  substitution of \<open>clean_text\<close> removes nothing, and cleaning twice is cleaning once.
\<close>

lemma collapse_ws_chars:
  "c \<in> set (collapse_ws s) \<Longrightarrow> c = CHR '' '' \<or> (c \<in> set s \<and> \<not> is_space c)"
proof (induction s arbitrary: c rule: collapse_ws.induct)
  case 1
  then show ?case by simp
next
  case (2 a as)
  show ?case
  proof (cases "is_space a")
    case True
    with 2(3) have "c = CHR '' '' \<or> c \<in> set (collapse_ws (dropWhile is_space as))" by auto
    then show ?thesis
    proof
      assume "c \<in> set (collapse_ws (dropWhile is_space as))"
      from 2(1) [OF True this] show ?thesis by (auto dest: set_dropWhileD)
    qed simp
  next
    case False
    with 2(3) have "c = a \<or> c \<in> set (collapse_ws as)" by auto
    then show ?thesis
    proof
      assume "c \<in> set (collapse_ws as)"
      from 2(2) [OF False this] show ?thesis by auto
    qed (use False in simp)
  qed
qed

lemma collapse_ws_head:
  "s \<noteq> [] \<Longrightarrow> \<not> is_space (hd s) \<Longrightarrow> collapse_ws s \<noteq> [] \<and> hd (collapse_ws s) = hd s"
  by (cases s) auto

lemma last_dropWhile_keep: "dropWhile P xs \<noteq> [] \<Longrightarrow> last (dropWhile P xs) = last xs"
  by (induction xs) (auto split: if_splits)

lemma collapse_ws_last:
  "s \<noteq> [] \<Longrightarrow> \<not> is_space (last s) \<Longrightarrow> collapse_ws s \<noteq> [] \<and> last (collapse_ws s) = last s"
proof (induction s rule: collapse_ws.induct)
  case 1
  then show ?case by simp
next
  case (2 a as)
  show ?case
  proof (cases "is_space a")
    case True
    with 2(3,4) have as: "as \<noteq> []" by (cases as) auto
    with 2(4) have l: "\<not> is_space (last as)" by simp
    from as have "last as \<in> set as" by simp
    with l have d: "dropWhile is_space as \<noteq> []" by (auto simp: dropWhile_eq_Nil_conv)
    then have ld: "last (dropWhile is_space as) = last as" by (rule last_dropWhile_keep)
    with l have "\<not> is_space (last (dropWhile is_space as))" by simp
    from 2(1) [OF True d this] ld as True show ?thesis by simp
  next
    case False
    show ?thesis
    proof (cases "as = []")
      case True
      with False show ?thesis by simp
    next
      case ne: False
      with 2(4) have "\<not> is_space (last as)" by simp
      from 2(2) [OF False ne this] ne False show ?thesis by simp
    qed
  qed
qed

lemma collapse_ws_idem: "collapse_ws (collapse_ws s) = collapse_ws s"
proof (induction s rule: collapse_ws.induct)
  case 1
  then show ?case by simp
next
  case (2 a as)
  show ?case
  proof (cases "is_space a")
    case True
    define d where "d = dropWhile is_space as"
    have sp: "is_space CHR '' ''" by (simp add: is_space_def)
    have "dropWhile is_space (collapse_ws d) = collapse_ws d"
    proof (cases "d = []")
      case True
      then show ?thesis by simp
    next
      case False
      then have "\<not> is_space (hd d)" unfolding d_def by (rule hd_dropWhile)
      with False collapse_ws_head [of d] have "collapse_ws d \<noteq> []" "\<not> is_space (hd (collapse_ws d))"
        by simp_all
      then show ?thesis by (cases "collapse_ws d") auto
    qed
    with 2(1) [OF True] True sp show ?thesis by (simp add: d_def)
  next
    case False
    with 2(2) show ?thesis by simp
  qed
qed

lemma strip_ends:
  "strip s = [] \<or> (\<not> is_space (hd (strip s)) \<and> \<not> is_space (last (strip s)))"
proof (cases "strip s = []")
  case True
  then show ?thesis by simp
next
  case False
  define d where "d = dropWhile is_space s"
  define e where "e = dropWhile is_space (rev d)"
  have s: "strip s = rev e" by (simp add: strip_def d_def e_def)
  with False have e: "e \<noteq> []" by simp
  then have "\<not> is_space (hd e)" unfolding e_def by (rule hd_dropWhile)
  with e s have l: "\<not> is_space (last (strip s))" by (simp add: last_rev)
  from e have d: "d \<noteq> []" unfolding e_def by auto
  then have hd: "\<not> is_space (hd d)" unfolding d_def by (rule hd_dropWhile)
  from e have "last e = last (rev d)" unfolding e_def by (rule last_dropWhile_keep)
  with d have "last e = hd d" by (simp add: last_rev)
  with e s hd have "\<not> is_space (hd (strip s))" by (simp add: hd_rev)
  with l show ?thesis by simp
qed

lemma collapse_strip_idem:
  "collapse_ws (strip (collapse_ws (strip s))) = collapse_ws (strip s)"
proof (cases "strip s = []")
  case True
  have "strip [] = []" by (simp add: strip_def)
  with True show ?thesis by simp
next
  case False
  with strip_ends [of s] have ends: "\<not> is_space (hd (strip s))" "\<not> is_space (last (strip s))"
    by simp_all
  from collapse_ws_head [OF False ends(1)] collapse_ws_last [OF False ends(2)] ends
  have "collapse_ws (strip s) \<noteq> []" "\<not> is_space (hd (collapse_ws (strip s)))"
    "\<not> is_space (last (collapse_ws (strip s)))" by simp_all
  then have "strip (collapse_ws (strip s)) = collapse_ws (strip s)" by (rule strip_id)
  then show ?thesis by (simp add: collapse_ws_idem)
qed

lemma clean_text_idempotent_printable:
  assumes "\<forall>c\<in>set s. is_space c \<or> (32 \<le> (of_char c :: nat) \<and> (of_char c :: nat) \<le> 126)"
  shows "clean_text (clean_text s) = clean_text s"
proof -
  have kept: "filter is_kept (collapse_ws (strip t)) = collapse_ws (strip t)"
    if H: "\<forall>c\<in>set t. is_space c \<or> (32 \<le> (of_char c :: nat) \<and> (of_char c :: nat) \<le> 126)" for t
  proof -
    have "is_kept c" if c: "c \<in> set (collapse_ws (strip t))" for c
    proof -
      from collapse_ws_chars [OF c] consider "c = CHR '' ''" | "c \<in> set (strip t)" "\<not> is_space c"
        by blast
      then show ?thesis
      proof cases
        case 1
        then show ?thesis by (simp add: is_kept_def)
      next
        case 2
        with set_strip have "c \<in> set t" by blast
        with H 2(2) show ?thesis by (auto simp: is_kept_def Let_def)
      qed
    qed
    then show ?thesis by (simp add: filter_id_conv)
  qed
  have ct: "clean_text s = collapse_ws (strip s)"
    using kept [OF assms] by (cases "s = []") (simp_all add: clean_text_def strip_def)
  have again: "\<forall>c\<in>set (collapse_ws (strip s)).
      is_space c \<or> (32 \<le> (of_char c :: nat) \<and> (of_char c :: nat) \<le> 126)"
  proof
    fix c assume "c \<in> set (collapse_ws (strip s))"
    from collapse_ws_chars [OF this] set_strip [of s] assms
    show "is_space c \<or> (32 \<le> (of_char c :: nat) \<and> (of_char c :: nat) \<le> 126)"
      by (auto simp: is_space_def)
  qed
  have "clean_text (collapse_ws (strip s)) = collapse_ws (strip (collapse_ws (strip s)))"
    using kept [OF again]
    by (cases "collapse_ws (strip s) = []") (simp_all add: clean_text_def strip_def)
  with ct show ?thesis by (simp add: collapse_strip_idem)
qed

text \<open>
  Claim C6.  \<open>clean_text\<close> is not idempotent.  It collapses whitespace first and removes
  the characters outside the printable range afterwards, so a removed character between
  two spaces leaves both spaces behind: the text "a", space, e with acute, space, "b"
  becomes "a  b" with two spaces, and cleaning that once more gives "a b".
\<close>

theorem clean_text_accented:
  "clean_text accented_text = ''a  b''
   \<and> clean_text (clean_text accented_text) = ''a b''
   \<and> clean_text (clean_text accented_text) \<noteq> clean_text accented_text"
  by code_simp

end
